theory Spec2Isabelle
  imports Main "HOL-Library.Word" "HOL-Library.Signed_Division" "HOL-Library.Option_ord"
begin

section \<open>The image publisher of rosbag2_performance_workers\<close>

text \<open>
  The header \<^verbatim>\<open>image_publisher.hpp\<close> holds a free function \<^verbatim>\<open>randomImageData\<close> and
  the node class \<^verbatim>\<open>nodes::ImagePublisher\<close>. Machine integers keep their width:
  \<^verbatim>\<open>uint8_t\<close> and \<^verbatim>\<open>uint32_t\<close> are words, whose arithmetic wraps around as unsigned
  arithmetic does in C++. A \<^verbatim>\<open>size_t\<close> value is a natural number.
\<close>

type_synonym uint8_t = "8 word"
type_synonym uint32_t = "32 word"

subsection \<open>randomImageData\<close>

text \<open>
  \<^verbatim>\<open>std::rand()\<close> reads and updates a hidden generator state and returns an
  \<^verbatim>\<open>int\<close>. The generator is a parameter \<open>std_rand\<close> that maps a state to the
  value returned and the next state. The C++ operator \<^verbatim>\<open>%\<close> on \<^verbatim>\<open>int\<close> truncates
  towards zero, which is \<open>smod\<close>; the assignment to a \<^verbatim>\<open>uint8_t\<close> element converts
  the \<^verbatim>\<open>int\<close> modulo 256, which is \<open>word_of_int\<close>.

  The loop \<^verbatim>\<open>for (size_t i = 0; i < size; ++i) pixels[i] = std::rand() % 255;\<close>
  runs on the vector \<^verbatim>\<open>pixels(size, 0)\<close>; the index is always below the length
  of the vector.
\<close>

function randomImageData_loop ::
  "('g \<Rightarrow> int \<times> 'g) \<Rightarrow> nat \<Rightarrow> nat \<Rightarrow> 'g \<Rightarrow> uint8_t list \<Rightarrow> uint8_t list \<times> 'g" where
  "randomImageData_loop std_rand sz i g pixels =
     (if i < sz
      then (case std_rand g of (r, g') \<Rightarrow>
              randomImageData_loop std_rand sz (Suc i) g' (pixels[i := word_of_int (r smod 255)]))
      else (pixels, g))"
  by pat_completeness auto
termination
  by (relation "measure (\<lambda>(std_rand, sz, i, g, pixels). sz - i)") auto

declare randomImageData_loop.simps [simp del]

definition randomImageData :: "('g \<Rightarrow> int \<times> 'g) \<Rightarrow> nat \<Rightarrow> 'g \<Rightarrow> uint8_t list \<times> 'g" where
  "randomImageData std_rand sz g = randomImageData_loop std_rand sz 0 g (replicate sz 0)"

text \<open>
  A generator for concrete runs: it returns its state and counts up, so that the
  values 253, 254, 255, 256 are drawn in a row from the state 253.
\<close>

definition counting_rand :: "nat \<Rightarrow> int \<times> nat" where
  "counting_rand g = (int g, Suc g)"

subsection \<open>The messages\<close>

text \<open>
  The fields of \<^verbatim>\<open>std_msgs::msg::Header\<close> and \<^verbatim>\<open>sensor_msgs::msg::Image\<close> that the
  node sets. The time stamp is the reading of \<^verbatim>\<open>rclcpp::Clock().now()\<close>, in
  nanoseconds.
\<close>

record Header =
  frame_id :: string
  stamp :: int

record Image =
  header :: Header
  height :: uint32_t
  width :: uint32_t
  encoding :: string
  step :: uint32_t
  data :: "uint8_t list"

subsection \<open>ImagePublisher\<close>

text \<open>
  The members of the class. The two timers are kept as flags: \<open>timer_cancelled\<close> is
  set by \<^verbatim>\<open>timer->cancel()\<close>.
\<close>

record ImagePublisher =
  node_name :: string
  random_image_data :: "uint8_t list"
  benchmark_path :: string
  dt :: uint32_t
  max_count :: uint32_t
  dimensions :: uint32_t
  delay :: uint32_t
  timer_cancelled :: bool

text \<open>
  The constructor reads the five parameters from the parameter service; here they are
  arguments. The buffer is drawn once:
  \<^verbatim>\<open>random_image_data = randomImageData(dimensions * 4 * dimensions)\<close>, where the
  product is a product of \<^verbatim>\<open>uint32_t\<close> values and wraps modulo \<open>2^32\<close> before it is
  converted to \<^verbatim>\<open>size_t\<close>.
\<close>

definition new_ImagePublisher ::
  "('g \<Rightarrow> int \<times> 'g) \<Rightarrow> string \<Rightarrow> uint32_t \<Rightarrow> uint32_t \<Rightarrow> uint32_t \<Rightarrow> uint32_t \<Rightarrow> string \<Rightarrow> 'g
     \<Rightarrow> ImagePublisher \<times> 'g" where
  "new_ImagePublisher std_rand name p_dt p_max_count p_dimensions p_delay p_benchmark_path g =
     (case randomImageData std_rand (unat (p_dimensions * 4 * p_dimensions)) g of
        (pixels, g') \<Rightarrow>
          (\<lparr>node_name = name, random_image_data = pixels, benchmark_path = p_benchmark_path,
            dt = p_dt, max_count = p_max_count, dimensions = p_dimensions, delay = p_delay,
            timer_cancelled = False\<rparr>, g'))"

text \<open>
  The message that \<^verbatim>\<open>timer_callback\<close> builds and publishes, from the members of the
  node and the clock reading.
\<close>

definition build_message :: "ImagePublisher \<Rightarrow> int \<Rightarrow> Image" where
  "build_message node now =
     \<lparr>header = \<lparr>frame_id = ''image_frame'', stamp = now\<rparr>,
      height = dimensions node,
      width = dimensions node,
      encoding = ''rgba8'',
      step = dimensions node * 4,
      data = random_image_data node\<rparr>"

text \<open>
  \<^verbatim>\<open>timer_callback\<close> declares \<^verbatim>\<open>uint32_t static current_msg_count = 0\<close>. A static
  local of a member function is one object of the process, not a member of the node:
  it is a field of the process state, beside the nodes of the process, the log of the
  messages published (with the index of the publishing node) and the flag that
  \<^verbatim>\<open>rclcpp::shutdown()\<close> sets.
\<close>

record process =
  current_msg_count :: uint32_t
  nodes :: "ImagePublisher list"
  published :: "(nat \<times> Image) list"
  shutdown_called :: bool

definition start_process :: "ImagePublisher list \<Rightarrow> process" where
  "start_process ns =
     \<lparr>current_msg_count = 0, nodes = ns, published = [], shutdown_called = False\<rparr>"

text \<open>
  One run of \<^verbatim>\<open>timer_callback\<close> on the node with index \<open>i\<close> at clock reading
  \<open>now\<close>: publish the message, pre-increment the counter (wrapping at \<open>2^32\<close>),
  compare it with \<^verbatim>\<open>max_count\<close> of this node and, when they are equal, cancel the
  timer of this node and shut down. A timer belongs to a node of the process, so an
  index outside the list stands for no callback and leaves the state as it is.
\<close>

definition timer_callback :: "nat \<Rightarrow> int \<Rightarrow> process \<Rightarrow> process" where
  "timer_callback i now p =
     (if i < length (nodes p) then
        (let node = nodes p ! i;
             message = build_message node now;
             p1 = p\<lparr>published := published p @ [(i, message)]\<rparr>;
             p2 = p1\<lparr>current_msg_count := current_msg_count p1 + 1\<rparr>
         in if current_msg_count p2 = max_count node
            then p2\<lparr>nodes := (nodes p2)[i := node\<lparr>timer_cancelled := True\<rparr>],
                    shutdown_called := True\<rparr>
            else p2)
      else p)"

text \<open>
  The executor runs timer callbacks one after another. A schedule lists them in the
  order in which they run: the index of the node whose timer fires, and the clock
  reading.
\<close>

fun run_callbacks :: "(nat \<times> int) list \<Rightarrow> process \<Rightarrow> process" where
  "run_callbacks [] p = p"
| "run_callbacks ((i, now) # sched) p = run_callbacks sched (timer_callback i now p)"

text \<open>The messages that node \<open>i\<close> has published.\<close>

definition published_by :: "nat \<Rightarrow> process \<Rightarrow> Image list" where
  "published_by i p = map snd (filter (\<lambda>e. fst e = i) (published p))"

text \<open>
  A process for concrete runs: two nodes with \<^verbatim>\<open>max_count = 4\<close> and
  \<^verbatim>\<open>dimensions = 1\<close>, whose timers fire in turn.
\<close>

definition two_publishers :: "ImagePublisher list" where
  "two_publishers =
     [fst (new_ImagePublisher counting_rand ''image_a'' 10 4 1 0 [] 0),
      fst (new_ImagePublisher counting_rand ''image_b'' 10 4 1 0 [] 0)]"

definition alternating :: "(nat \<times> int) list" where
  "alternating = [(0, 10), (1, 15), (0, 20), (1, 25)]"

section \<open>The record and replay core\<close>

text \<open>
  The sources hold the image publisher only. The storage and compression plugins,
  the Sequential Writer and the Sequential Reader of rosbag2 are not among them, so
  this section is written from the specification: the data model of section 3, the
  Writer of section 4.4 and the Reader of section 4.5. Every definition below says
  which missing part it stands for.
\<close>

subsection \<open>Data model\<close>

text \<open>
  Modelled from the spec: the SerializedMessage of section 3, whose declaration is
  missing from the sources: topic name, serialization format identifier, opaque
  payload bytes and receive timestamp in nanoseconds.
\<close>

record SerializedMessage =
  topic_name :: string
  serialization_format :: string
  payload :: "uint8_t list"
  receive_timestamp :: int

text \<open>
  Modelled from the spec: the error taxonomy of section 7, missing from the sources,
  with the \<open>AlreadyClosed\<close> report of section 4.4 for a second call of close.
\<close>

datatype bag_error =
  StorageOpenError | StorageWriteError | StorageReadError | CompressionError
  | UnsupportedStorageError | QueueClosedError | BagNotFoundError | MetadataCorruptError
  | AlreadyClosed

text \<open>
  Modelled from the spec: the compression mode of the metadata descriptor
  (section 6: none, file or message), whose declaration is missing from the sources.
\<close>

datatype compression_mode = NoCompression | FileCompression | MessageCompression

text \<open>
  Modelled from the spec: the Compression Plugin Interface of section 4.2, whose
  implementations are missing from the sources. A plugin is the four operations of
  the interface; \<open>None\<close> is the failure \<open>CompressionError\<close>. A file is known by its
  content, the messages stored in it; \<open>'c\<close> is the type of a compressed file.
\<close>

record 'c CompressionPlugin =
  compress_file :: "SerializedMessage list \<Rightarrow> 'c option"
  decompress_file :: "'c \<Rightarrow> SerializedMessage list option"
  compress_message :: "SerializedMessage \<Rightarrow> SerializedMessage option"
  decompress_message :: "SerializedMessage \<Rightarrow> SerializedMessage option"

text \<open>
  Modelled from the spec: the physical storage file of a Split (sections 3 and 4.1),
  whose storage backend is missing from the sources. The file holds the messages in
  the order in which they were written, or it is the result of whole-file
  compression.
\<close>

datatype 'c storage_file = StorageFile "SerializedMessage list" | CompressedFile 'c

text \<open>
  Modelled from the spec: the Split of section 3, missing from the sources: one
  physical storage file plus its local metadata, the message count and the time
  bounds (the least and the greatest timestamp, none for a Split without messages),
  and the size that the Writer has counted for it. The file is named by the base
  name and the sequence suffix.
\<close>

record 'c Split =
  split_name :: "string \<times> nat"
  split_file :: "'c storage_file"
  message_count :: nat
  time_bounds :: "(int \<times> int) option"
  split_size :: nat

text \<open>
  Modelled from the spec: the logical bag of section 3, missing from the sources:
  the fields of BagMetadata that the Reader consumes (storage identifier,
  compression mode and format) and the ordered sequence of Splits that the bag owns.
\<close>

record 'c Bag =
  storage_identifier :: string
  bag_compression_mode :: compression_mode
  bag_compression_format :: string
  bag_splits :: "'c Split list"

subsection \<open>Sequential Writer\<close>

text \<open>
  Modelled from the spec: the storage options given to \<open>open\<close> of the Writer
  (section 4.4), missing from the sources: the base path, the storage identifier and
  the two rollover bounds, in bytes and in nanoseconds, where zero disables a bound.
\<close>

record StorageOptions =
  uri :: string
  storage_id :: string
  max_bagfile_size :: nat
  max_bagfile_duration :: nat

text \<open>
  Modelled from the spec: the compression options given to \<open>open\<close> of the Writer
  (section 4.4), missing from the sources.
\<close>

record CompressionOptions =
  compression_format :: string
  compression_mode :: compression_mode

text \<open>
  Modelled from the spec: the states of the Writer's state machine (section 4.4),
  missing from the sources.
\<close>

datatype writer_state = Idle | Open | Closed

text \<open>
  Modelled from the spec: the Sequential Writer of section 4.4, missing from the
  sources: its state, its options, the Splits sealed so far (the descriptors appended
  to BagMetadata), and the active Split with its sequence suffix, the messages
  written to its storage handle and its running statistics.
\<close>

record 'c SequentialWriter =
  writer_state :: writer_state
  storage_options :: StorageOptions
  compression_options :: CompressionOptions
  sealed_splits :: "'c Split list"
  sequence_suffix :: nat
  current_messages :: "SerializedMessage list"
  current_bounds :: "(int \<times> int) option"
  current_size :: nat

text \<open>
  Modelled from the spec: the size that one message adds to a Split, which the
  missing storage backend would report. The spec speaks of the size of one message
  and of sizes that add up; the size is taken to be the number of payload bytes.
\<close>

definition message_size :: "SerializedMessage \<Rightarrow> nat" where
  "message_size m = length (payload m)"

text \<open>
  Modelled from the spec: the update of the running time bounds of a Split in the
  missing Writer, so that the bounds are the least and the greatest timestamp of the
  messages of the Split (invariant of section 3).
\<close>

definition extend_bounds :: "(int \<times> int) option \<Rightarrow> int \<Rightarrow> (int \<times> int) option" where
  "extend_bounds b t = (case b of None \<Rightarrow> Some (t, t) | Some (lo, hi) \<Rightarrow> Some (min lo t, max hi t))"

text \<open>
  Modelled from the spec: the duration of the current Split in the rollover
  condition of the missing Writer, the span of its time bounds.
\<close>

definition split_duration :: "(int \<times> int) option \<Rightarrow> int" where
  "split_duration b = (case b of None \<Rightarrow> 0 | Some (lo, hi) \<Rightarrow> hi - lo)"

text \<open>
  Modelled from the spec: \<open>open\<close> of the missing Writer (section 4.4): it creates the
  first Split and leaves the Writer in the state \<open>Open\<close>.
\<close>

definition open_writer :: "StorageOptions \<Rightarrow> CompressionOptions \<Rightarrow> 'c SequentialWriter" where
  "open_writer sopts copts =
     \<lparr>writer_state = Open, storage_options = sopts, compression_options = copts,
      sealed_splits = [], sequence_suffix = 0, current_messages = [],
      current_bounds = None, current_size = 0\<rparr>"

text \<open>
  Modelled from the spec: the rollover condition of the missing Writer
  (section 4.4): the size of the current Split has reached \<open>max_bagfile_size\<close>, or its
  duration has reached \<open>max_bagfile_duration\<close>; either bound triggers if it is not
  zero, and zero disables it.
\<close>

definition should_rollover :: "'c SequentialWriter \<Rightarrow> bool" where
  "should_rollover w =
     ((max_bagfile_size (storage_options w) \<noteq> 0
         \<and> max_bagfile_size (storage_options w) \<le> current_size w)
      \<or> (max_bagfile_duration (storage_options w) \<noteq> 0
         \<and> int (max_bagfile_duration (storage_options w)) \<le> split_duration (current_bounds w)))"

text \<open>
  Modelled from the spec: sealing the current Split in the missing Writer
  (section 4.4): flush its metadata and apply whole-file compression if it is
  configured. A failure of the plugin is a \<open>CompressionError\<close>.
\<close>

definition seal_split :: "'c CompressionPlugin \<Rightarrow> 'c SequentialWriter \<Rightarrow> bag_error + 'c Split" where
  "seal_split plugin w =
     (case (if compression_mode (compression_options w) = FileCompression
            then map_option CompressedFile (compress_file plugin (current_messages w))
            else Some (StorageFile (current_messages w))) of
        None \<Rightarrow> Inl CompressionError
      | Some file \<Rightarrow>
          Inr \<lparr>split_name = (uri (storage_options w), sequence_suffix w),
               split_file = file,
               message_count = length (current_messages w),
               time_bounds = current_bounds w,
               split_size = current_size w\<rparr>)"

text \<open>
  Modelled from the spec: rollover in the missing Writer (section 4.4): seal the
  current Split, append its descriptor to BagMetadata and open a new Split with an
  incremented sequence suffix.
\<close>

definition rollover :: "'c CompressionPlugin \<Rightarrow> 'c SequentialWriter \<Rightarrow> bag_error + 'c SequentialWriter" where
  "rollover plugin w =
     (case seal_split plugin w of
        Inl e \<Rightarrow> Inl e
      | Inr s \<Rightarrow>
          Inr (w\<lparr>sealed_splits := sealed_splits w @ [s],
                 sequence_suffix := Suc (sequence_suffix w),
                 current_messages := [], current_bounds := None, current_size := 0\<rparr>))"

text \<open>
  Modelled from the spec: the optional per-message compression of the missing Writer
  (section 4.4): the form in which a message is handed to the storage handle.
\<close>

definition stored_form ::
  "'c CompressionPlugin \<Rightarrow> compression_mode \<Rightarrow> SerializedMessage \<Rightarrow> SerializedMessage option" where
  "stored_form plugin mode m =
     (if mode = MessageCompression then compress_message plugin m else Some m)"

text \<open>
  Modelled from the spec: what the missing Writer does on each dequeued message
  (section 4.4): optionally apply per-message compression, write through the storage
  handle, update the running statistics of the Split, then evaluate the rollover
  condition. Writing needs an open Writer; a failure of the plugin is fatal.
\<close>

definition write_message ::
  "'c CompressionPlugin \<Rightarrow> 'c SequentialWriter \<Rightarrow> SerializedMessage \<Rightarrow> bag_error + 'c SequentialWriter" where
  "write_message plugin w m =
     (if writer_state w \<noteq> Open then Inl StorageWriteError
      else
        (case stored_form plugin (compression_mode (compression_options w)) m of
           None \<Rightarrow> Inl CompressionError
         | Some stored \<Rightarrow>
             (let w1 = w\<lparr>current_messages := current_messages w @ [stored],
                          current_bounds := extend_bounds (current_bounds w) (receive_timestamp m),
                          current_size := current_size w + message_size stored\<rparr>
              in if should_rollover w1 then rollover plugin w1 else Inr w1)))"

text \<open>
  Modelled from the spec: the drain loop that hands the dequeued messages to the
  missing Writer one by one, in the order in which they were dequeued; the first
  fatal error aborts the recording.
\<close>

fun write_all ::
  "'c CompressionPlugin \<Rightarrow> 'c SequentialWriter \<Rightarrow> SerializedMessage list \<Rightarrow> bag_error + 'c SequentialWriter" where
  "write_all plugin w [] = Inr w"
| "write_all plugin w (m # ms) =
     (case write_message plugin w m of Inl e \<Rightarrow> Inl e | Inr w' \<Rightarrow> write_all plugin w' ms)"

text \<open>
  Modelled from the spec: \<open>close\<close> of the missing Writer (section 4.4): seal the
  current Split and finalize BagMetadata; a call on a Writer that is not open reports
  \<open>AlreadyClosed\<close>.
\<close>

definition close_writer :: "'c CompressionPlugin \<Rightarrow> 'c SequentialWriter \<Rightarrow> bag_error + 'c SequentialWriter" where
  "close_writer plugin w =
     (if writer_state w \<noteq> Open then Inl AlreadyClosed
      else
        (case seal_split plugin w of
           Inl e \<Rightarrow> Inl e
         | Inr s \<Rightarrow>
             Inr (w\<lparr>writer_state := Closed,
                    sealed_splits := sealed_splits w @ [s],
                    current_messages := [], current_bounds := None, current_size := 0\<rparr>)))"

text \<open>
  Modelled from the spec: the bag that the missing Writer leaves behind when it
  persists BagMetadata: the identifiers from its options, and its Splits in the order
  in which they were sealed.
\<close>

definition bag_of :: "'c SequentialWriter \<Rightarrow> 'c Bag" where
  "bag_of w =
     \<lparr>storage_identifier = storage_id (storage_options w),
      bag_compression_mode = compression_mode (compression_options w),
      bag_compression_format = compression_format (compression_options w),
      bag_splits = sealed_splits w\<rparr>"

text \<open>
  Modelled from the spec: one recording session of the missing Recorder
  (section 4.6), seen from the Writer: open, write the messages in the order in which
  they leave the queue, close. The result is the bag, or the error that ended the
  session.
\<close>

definition record_session ::
  "'c CompressionPlugin \<Rightarrow> StorageOptions \<Rightarrow> CompressionOptions \<Rightarrow> SerializedMessage list
     \<Rightarrow> bag_error + 'c Bag" where
  "record_session plugin sopts copts msgs =
     (case write_all plugin (open_writer sopts copts) msgs of
        Inl e \<Rightarrow> Inl e
      | Inr w \<Rightarrow>
          (case close_writer plugin w of
             Inl e \<Rightarrow> Inl e
           | Inr w' \<Rightarrow> Inr (bag_of w')))"



subsection \<open>Sequential Reader\<close>

text \<open>
  Modelled from the spec: the Sequential Reader of section 4.5, missing from the
  sources: the compression mode declared by BagMetadata, the Splits in the order in
  which they are traversed, and the optional allow-list of topics.
\<close>

record 'c SequentialReader =
  reader_mode :: compression_mode
  reader_splits :: "'c Split list"
  topic_filter :: "string list option"

text \<open>
  Modelled from the spec: the recorded start time of a Split, by which the missing
  Reader orders the Splits; a Split without messages has recorded none.
\<close>

definition start_time :: "'c Split \<Rightarrow> int option" where
  "start_time s = map_option fst (time_bounds s)"

text \<open>
  Modelled from the spec: \<open>open\<close> of the missing Reader (section 4.5): validate the
  declared storage identifier against the available backends and order the Splits by
  their recorded start time. The sort is stable, and a Split that has recorded no
  start time comes before those that have.
\<close>

definition open_reader :: "string list \<Rightarrow> 'c Bag \<Rightarrow> bag_error + 'c SequentialReader" where
  "open_reader backends bag =
     (if storage_identifier bag \<in> set backends
      then Inr \<lparr>reader_mode = bag_compression_mode bag,
                reader_splits = sort_key start_time (bag_splits bag),
                topic_filter = None\<rparr>
      else Inl UnsupportedStorageError)"

text \<open>
  Modelled from the spec: per-message decompression in the missing Reader
  (sections 4.2 and 4.5): a message that fails to decompress is reported and skipped.
  The result is the messages read and the errors reported.
\<close>

fun decompress_messages ::
  "'c CompressionPlugin \<Rightarrow> SerializedMessage list \<Rightarrow> SerializedMessage list \<times> bag_error list" where
  "decompress_messages plugin [] = ([], [])"
| "decompress_messages plugin (k # ks) =
     (case decompress_messages plugin ks of
        (ms, es) \<Rightarrow>
          (case decompress_message plugin k of
             None \<Rightarrow> (ms, CompressionError # es)
           | Some m \<Rightarrow> (m # ms, es)))"

text \<open>
  Modelled from the spec: reading one Split in the missing Reader (section 4.5):
  open it, decompress whole-file or per-message as BagMetadata declares, and read its
  messages in stored order. A Split that cannot be opened or decompressed is
  reported and skipped; a file that is not in the declared form is not a recognized
  format.
\<close>

definition read_split ::
  "'c CompressionPlugin \<Rightarrow> compression_mode \<Rightarrow> 'c Split \<Rightarrow> SerializedMessage list \<times> bag_error list" where
  "read_split plugin mode s =
     (case mode of
        NoCompression \<Rightarrow>
          (case split_file s of
             StorageFile ms \<Rightarrow> (ms, [])
           | CompressedFile c \<Rightarrow> ([], [StorageOpenError]))
      | FileCompression \<Rightarrow>
          (case split_file s of
             StorageFile ms \<Rightarrow> ([], [CompressionError])
           | CompressedFile c \<Rightarrow>
               (case decompress_file plugin c of
                  None \<Rightarrow> ([], [CompressionError])
                | Some ms \<Rightarrow> (ms, [])))
      | MessageCompression \<Rightarrow>
          (case split_file s of
             StorageFile ks \<Rightarrow> decompress_messages plugin ks
           | CompressedFile c \<Rightarrow> ([], [StorageOpenError])))"

text \<open>
  Modelled from the spec: the topic filter of the missing Reader (section 4.5): with
  an allow-list, a message passes if its topic is in the list.
\<close>

definition allowed :: "string list option \<Rightarrow> SerializedMessage \<Rightarrow> bool" where
  "allowed f m = (case f of None \<Rightarrow> True | Some topics \<Rightarrow> topic_name m \<in> set topics)"

text \<open>
  Modelled from the spec: the traversal of the missing Reader (section 4.5): one
  Split is exhausted before the next is opened, the streams are concatenated without
  a merge, and the filter is applied after decompression.
\<close>

fun read_splits ::
  "'c CompressionPlugin \<Rightarrow> compression_mode \<Rightarrow> string list option \<Rightarrow> 'c Split list
     \<Rightarrow> SerializedMessage list \<times> bag_error list" where
  "read_splits plugin mode f [] = ([], [])"
| "read_splits plugin mode f (s # ss) =
     (case read_split plugin mode s of
        (ms, es) \<Rightarrow>
          (case read_splits plugin mode f ss of
             (ms', es') \<Rightarrow> (filter (allowed f) ms @ ms', es @ es')))"

text \<open>
  Modelled from the spec: the sequence of messages that successive calls of
  \<open>read_next\<close> of the missing Reader return until \<open>has_next\<close> is false, with the
  errors reported on the way.
\<close>

definition read_messages ::
  "'c CompressionPlugin \<Rightarrow> 'c SequentialReader \<Rightarrow> SerializedMessage list \<times> bag_error list" where
  "read_messages plugin r = read_splits plugin (reader_mode r) (topic_filter r) (reader_splits r)"

subsection \<open>The invariant on Splits and the contract of a plugin\<close>

text \<open>
  Modelled from the spec: the invariant of section 4.5 on the Splits of a bag, stated
  for the missing Writer and Reader: the Splits are non-overlapping in time and
  written in increasing temporal order, so that a Split ends no later than any later
  Split starts. A Split without messages has no bounds and constrains nothing.
\<close>

fun non_overlapping :: "'c Split list \<Rightarrow> bool" where
  "non_overlapping [] = True"
| "non_overlapping (s # ss) =
     (list_all (\<lambda>s'. case (time_bounds s, time_bounds s') of
                        (Some (lo, hi), Some (lo', hi')) \<Rightarrow> hi \<le> lo'
                      | _ \<Rightarrow> True) ss
      \<and> non_overlapping ss)"

text \<open>
  Modelled from the spec: the contract of section 4.2 on the missing compression
  plugins: decompression of a compressed artifact reproduces the original, for a
  whole file and for a single message.
\<close>

definition lossless :: "'c CompressionPlugin \<Rightarrow> bool" where
  "lossless plugin \<longleftrightarrow>
     (\<forall>ms c. compress_file plugin ms = Some c \<longrightarrow> decompress_file plugin c = Some ms)
     \<and> (\<forall>m k. compress_message plugin m = Some k \<longrightarrow> decompress_message plugin k = Some m)"

subsection \<open>Invariants of a recording\<close>

text \<open>
  What the Reader gets from the messages of a Split that is still open: they are
  decompressed one by one where per-message compression is configured.
\<close>

definition decode_stored ::
  "'c CompressionPlugin \<Rightarrow> compression_mode \<Rightarrow> SerializedMessage list
     \<Rightarrow> SerializedMessage list \<times> bag_error list" where
  "decode_stored plugin mode ks =
     (if mode = MessageCompression then decompress_messages plugin ks else (ks, []))"

text \<open>
  A sealed Split is read without an error, it holds no message if it has recorded no
  bounds, and its bounds are in order.
\<close>

definition split_ok :: "'c CompressionPlugin \<Rightarrow> compression_mode \<Rightarrow> 'c Split \<Rightarrow> bool" where
  "split_ok plugin mode s \<longleftrightarrow>
     snd (read_split plugin mode s) = []
     \<and> (time_bounds s = None \<longrightarrow> fst (read_split plugin mode s) = [])
     \<and> (\<forall>lo hi. time_bounds s = Some (lo, hi) \<longrightarrow> lo \<le> hi)"

text \<open>
  The messages written so far are those of the sealed Splits, read back in order,
  followed by those of the open Split.
\<close>

definition writer_inv ::
  "'c CompressionPlugin \<Rightarrow> 'c SequentialWriter \<Rightarrow> SerializedMessage list \<Rightarrow> bool" where
  "writer_inv plugin w msgs \<longleftrightarrow>
     writer_state w = Open
     \<and> fst (read_splits plugin (compression_mode (compression_options w)) None (sealed_splits w))
         @ fst (decode_stored plugin (compression_mode (compression_options w)) (current_messages w))
       = msgs
     \<and> snd (decode_stored plugin (compression_mode (compression_options w)) (current_messages w)) = []
     \<and> (\<forall>s \<in> set (sealed_splits w). split_ok plugin (compression_mode (compression_options w)) s)
     \<and> (current_bounds w = None \<longrightarrow> current_messages w = [])
     \<and> (\<forall>lo hi. current_bounds w = Some (lo, hi) \<longrightarrow> lo \<le> hi)"



text \<open>
  When the messages arrive in timestamp order, no bound recorded so far exceeds the
  timestamp \<open>t\<close> of the last message, and the open Split starts no earlier than any
  sealed Split ends.
\<close>

definition order_inv :: "'c SequentialWriter \<Rightarrow> int \<Rightarrow> bool" where
  "order_inv w t \<longleftrightarrow>
     non_overlapping (sealed_splits w)
     \<and> (\<forall>s \<in> set (sealed_splits w). \<forall>lo hi. time_bounds s = Some (lo, hi) \<longrightarrow> hi \<le> t)
     \<and> (\<forall>lo hi. current_bounds w = Some (lo, hi) \<longrightarrow>
          hi \<le> t
          \<and> (\<forall>s \<in> set (sealed_splits w). \<forall>lo' hi'. time_bounds s = Some (lo', hi') \<longrightarrow> hi' \<le> lo))"

subsection \<open>A recording for concrete runs\<close>

text \<open>
  A plugin that keeps every byte: it reverses the payload of a message and the order
  of the messages of a file, and reverses them back.
\<close>

definition mirror_codec :: "SerializedMessage list CompressionPlugin" where
  "mirror_codec =
     \<lparr>compress_file = (\<lambda>ms. Some (rev ms)),
      decompress_file = (\<lambda>c. Some (rev c)),
      compress_message = (\<lambda>m. Some (m\<lparr>payload := rev (payload m)\<rparr>)),
      decompress_message = (\<lambda>k. Some (k\<lparr>payload := rev (payload k)\<rparr>))\<rparr>"

text \<open>
  The scenario of section 8: three messages on \<open>/a\<close> at 0, 100 and 250 milliseconds
  and two on \<open>/b\<close> at 50 and 200 milliseconds, in arrival order, each with two bytes of
  payload.
\<close>

definition demo_message :: "string \<Rightarrow> int \<Rightarrow> uint8_t list \<Rightarrow> SerializedMessage" where
  "demo_message t ms bytes =
     \<lparr>topic_name = t, serialization_format = ''cdr'', payload = bytes,
      receive_timestamp = ms * 1000000\<rparr>"

definition demo_messages :: "SerializedMessage list" where
  "demo_messages =
     [demo_message ''/a'' 0 [1, 2], demo_message ''/b'' 50 [3, 4], demo_message ''/a'' 100 [5, 6],
      demo_message ''/b'' 200 [7, 8], demo_message ''/a'' 250 [9, 10]]"

text \<open>Two messages whose timestamps go against the order of arrival.\<close>

definition late_messages :: "SerializedMessage list" where
  "late_messages = [demo_message ''/a'' 100 [1, 2, 3, 4], demo_message ''/a'' 50 [5, 6, 7, 8]]"

definition size_bound_storage :: StorageOptions where
  "size_bound_storage =
     \<lparr>uri = ''bag'', storage_id = ''sqlite3'', max_bagfile_size = 4, max_bagfile_duration = 0\<rparr>"

definition message_compression :: CompressionOptions where
  "message_compression = \<lparr>compression_format = ''mirror'', compression_mode = MessageCompression\<rparr>"

definition no_compression :: CompressionOptions where
  "no_compression = \<lparr>compression_format = [], compression_mode = NoCompression\<rparr>"

text \<open>
  The bag that recording the scenario gives with a size bound of 4 bytes and
  per-message compression: three Splits.
\<close>

definition demo_bag :: "SerializedMessage list Bag" where
  "demo_bag =
     \<lparr>storage_identifier = ''sqlite3'',
      bag_compression_mode = MessageCompression,
      bag_compression_format = ''mirror'',
      bag_splits =
        [\<lparr>split_name = (''bag'', 0),
          split_file = StorageFile [demo_message ''/a'' 0 [2, 1], demo_message ''/b'' 50 [4, 3]],
          message_count = 2, time_bounds = Some (0, 50000000), split_size = 4\<rparr>,
         \<lparr>split_name = (''bag'', 1),
          split_file = StorageFile [demo_message ''/a'' 100 [6, 5], demo_message ''/b'' 200 [8, 7]],
          message_count = 2, time_bounds = Some (100000000, 200000000), split_size = 4\<rparr>,
         \<lparr>split_name = (''bag'', 2),
          split_file = StorageFile [demo_message ''/a'' 250 [10, 9]],
          message_count = 1, time_bounds = Some (250000000, 250000000), split_size = 2\<rparr>]\<rparr>"


text \<open>
  What a Reader returns from the bag of a recording: the error of the recording or of
  \<open>open\<close>, or the messages read and the errors reported.
\<close>

definition replay ::
  "'c CompressionPlugin \<Rightarrow> string list \<Rightarrow> bag_error + 'c Bag
     \<Rightarrow> bag_error + SerializedMessage list \<times> bag_error list" where
  "replay plugin backends r =
     (case r of
        Inl e \<Rightarrow> Inl e
      | Inr bag \<Rightarrow>
          (case open_reader backends bag of
             Inl e \<Rightarrow> Inl e
           | Inr reader \<Rightarrow> Inr (read_messages plugin reader)))"

section \<open>Properties of randomImageData\<close>

lemma randomImageData_loop_length:
  "length (fst (randomImageData_loop std_rand sz i g pixels)) = length pixels"
proof (induction std_rand sz i g pixels rule: randomImageData_loop.induct)
  case (1 std_rand sz i g pixels)
  show ?case
  proof (cases "i < sz")
    case True
    obtain r g' where rg: "std_rand g = (r, g')"
      by (cases "std_rand g")
    from True rg "1.IH" [OF True rg [symmetric]] show ?thesis
      by (simp add: randomImageData_loop.simps [of std_rand sz i g pixels])
  next
    case False
    then show ?thesis
      by (simp add: randomImageData_loop.simps [of std_rand sz i g pixels])
  qed
qed

lemma smod_255_range:
  fixes r :: int
  assumes "0 \<le> r"
  shows "0 \<le> r smod 255" and "r smod 255 < 255"
  using assms by (simp_all add: signed_modulo_int_def sgn_if)

lemma pixel_below_255:
  fixes r :: int
  assumes "0 \<le> r"
  shows "unat (word_of_int (r smod 255) :: uint8_t) \<le> 254"
proof -
  have "unat (word_of_int (r smod 255) :: uint8_t) = nat (r smod 255)"
    using smod_255_range [OF assms]
    by (simp add: unsigned_of_int take_bit_int_eq_self)
  with smod_255_range [OF assms] show ?thesis
    by simp
qed

lemma randomImageData_loop_bytes:
  assumes "\<forall>s. 0 \<le> fst (std_rand s)"
    and "\<forall>b \<in> set pixels. unat b \<le> 254"
  shows "\<forall>b \<in> set (fst (randomImageData_loop std_rand sz i g pixels)). unat b \<le> 254"
  using assms
proof (induction std_rand sz i g pixels rule: randomImageData_loop.induct)
  case (1 std_rand sz i g pixels)
  show ?case
  proof (cases "i < sz")
    case True
    obtain r g' where rg: "std_rand g = (r, g')"
      by (cases "std_rand g")
    have "0 \<le> r"
      using "1.prems"(1) rg by (metis fst_conv)
    then have px: "unat (word_of_int (r smod 255) :: uint8_t) \<le> 254"
      by (rule pixel_below_255)
    have "\<forall>b \<in> set (pixels[i := word_of_int (r smod 255)]). unat b \<le> 254"
    proof
      fix b
      assume "b \<in> set (pixels[i := word_of_int (r smod 255)])"
      then have "b = word_of_int (r smod 255) \<or> b \<in> set pixels"
        using set_update_subset_insert [of pixels i "word_of_int (r smod 255)"] by auto
      with px "1.prems"(2) show "unat b \<le> 254"
        by auto
    qed
    with "1.IH" [OF True rg [symmetric] "1.prems"(1)] True rg show ?thesis
      by (simp add: randomImageData_loop.simps [of std_rand sz i g pixels])
  next
    case False
    with "1.prems"(2) show ?thesis
      by (simp add: randomImageData_loop.simps [of std_rand sz i g pixels])
  qed
qed

text \<open>
  Claim C9. For every size, \<^verbatim>\<open>randomImageData\<close> returns a vector of exactly that many
  bytes, and every byte lies between 0 and 254: the value 255 is never produced,
  since each pixel is \<^verbatim>\<open>std::rand() % 255\<close>. The standard library promises that
  \<^verbatim>\<open>std::rand()\<close> returns a value between 0 and \<^verbatim>\<open>RAND_MAX\<close>; that it is not
  negative is the hypothesis on the generator.
\<close>

theorem randomImageData_size_and_range:
  assumes "\<forall>s. 0 \<le> fst (std_rand s)"
  shows "length (fst (randomImageData std_rand sz g)) = sz
       \<and> (\<forall>b \<in> set (fst (randomImageData std_rand sz g)). unat b \<le> 254)"
proof
  show "length (fst (randomImageData std_rand sz g)) = sz"
    by (simp add: randomImageData_def randomImageData_loop_length)
next
  have "\<forall>b \<in> set (replicate sz (0 :: uint8_t)). unat b \<le> 254"
    by simp
  with assms show "\<forall>b \<in> set (fst (randomImageData std_rand sz g)). unat b \<le> 254"
    unfolding randomImageData_def by (rule randomImageData_loop_bytes)
qed

lemma counting_rand_nonneg: "\<forall>s. 0 \<le> fst (counting_rand s)"
  by (simp add: counting_rand_def)

lemma randomImageData_counting_4:
  "randomImageData counting_rand 4 253 = ([253, 254, 0, 1], 257)"
  by (simp add: randomImageData_def randomImageData_loop.simps counting_rand_def
      signed_modulo_int_def numeral_eq_Suc)

theorem randomImageData_size_and_range_witness:
  "(\<forall>s. 0 \<le> fst (counting_rand s))
   \<and> fst (randomImageData counting_rand 4 253) = [253, 254, 0, 1]
   \<and> length (fst (randomImageData counting_rand 4 253)) = 4
   \<and> unat (fst (randomImageData counting_rand 4 253) ! 1) \<le> 254"
proof -
  have mem: "fst (randomImageData counting_rand 4 253) ! 1
      \<in> set (fst (randomImageData counting_rand 4 253))"
    by (simp add: randomImageData_counting_4)
  from randomImageData_size_and_range [OF counting_rand_nonneg, of 4 253] mem
  have "length (fst (randomImageData counting_rand 4 253)) = 4
      \<and> unat (fst (randomImageData counting_rand 4 253) ! 1) \<le> 254"
    by blast
  with counting_rand_nonneg randomImageData_counting_4 show ?thesis
    by simp
qed

section \<open>Properties of ImagePublisher\<close>

lemma timer_callback_nodes:
  "length (nodes (timer_callback i now p)) = length (nodes p)"
  by (simp add: timer_callback_def Let_def)

lemma timer_callback_node_members:
  "j < length (nodes p) \<Longrightarrow>
   max_count (nodes (timer_callback i now p) ! j) = max_count (nodes p ! j)
   \<and> dimensions (nodes (timer_callback i now p) ! j) = dimensions (nodes p ! j)
   \<and> random_image_data (nodes (timer_callback i now p) ! j) = random_image_data (nodes p ! j)"
  by (simp add: timer_callback_def Let_def nth_list_update)

lemma timer_callback_count:
  "i < length (nodes p) \<Longrightarrow>
   current_msg_count (timer_callback i now p) = current_msg_count p + 1"
  by (simp add: timer_callback_def Let_def)

lemma timer_callback_shutdown:
  "i < length (nodes p) \<Longrightarrow>
   shutdown_called (timer_callback i now p) \<longleftrightarrow>
     shutdown_called p \<or> current_msg_count p + 1 = max_count (nodes p ! i)"
  by (simp add: timer_callback_def Let_def)

lemma timer_callback_published:
  "i < length (nodes p) \<Longrightarrow>
   published (timer_callback i now p) = published p @ [(i, build_message (nodes p ! i) now)]"
  by (simp add: timer_callback_def Let_def)

lemma build_message_cong:
  "dimensions a = dimensions b \<Longrightarrow> random_image_data a = random_image_data b \<Longrightarrow>
   build_message a now = build_message b now"
  by (simp add: build_message_def)

lemma run_callbacks_nodes:
  "length (nodes (run_callbacks sched p)) = length (nodes p)"
  by (induction sched p rule: run_callbacks.induct) (simp_all add: timer_callback_nodes)

lemma run_callbacks_count:
  "\<forall>e \<in> set sched. fst e < length (nodes p) \<Longrightarrow>
   current_msg_count (run_callbacks sched p) = current_msg_count p + of_nat (length sched)"
proof (induction sched p rule: run_callbacks.induct)
  case (1 p)
  then show ?case by simp
next
  case (2 i now sched p)
  then show ?case
    by (simp add: timer_callback_nodes timer_callback_count)
qed

lemma run_callbacks_shutdown:
  "\<forall>e \<in> set sched. fst e < length (nodes p) \<Longrightarrow>
   shutdown_called (run_callbacks sched p) \<longleftrightarrow>
     shutdown_called p \<or>
     (\<exists>k < length sched. current_msg_count p + of_nat (Suc k) = max_count (nodes p ! fst (sched ! k)))"
proof (induction sched p rule: run_callbacks.induct)
  case (1 p)
  then show ?case by simp
next
  case (2 i now sched p)
  let ?q = "timer_callback i now p"
  have i: "i < length (nodes p)"
    using "2.prems" by simp
  have valid: "\<forall>e \<in> set sched. fst e < length (nodes ?q)"
    using "2.prems" by (simp add: timer_callback_nodes)
  have mc: "\<And>k. k < length sched \<Longrightarrow>
      max_count (nodes ?q ! fst (sched ! k)) = max_count (nodes p ! fst (sched ! k))"
    using "2.prems" by (simp add: timer_callback_node_members)
  have "shutdown_called (run_callbacks ((i, now) # sched) p) \<longleftrightarrow>
      shutdown_called ?q \<or>
      (\<exists>k < length sched. current_msg_count ?q + of_nat (Suc k) = max_count (nodes ?q ! fst (sched ! k)))"
    using "2.IH" [OF valid] by simp
  also have "\<dots> \<longleftrightarrow> shutdown_called p \<or> current_msg_count p + 1 = max_count (nodes p ! i) \<or>
      (\<exists>k < length sched. current_msg_count p + of_nat (Suc (Suc k)) = max_count (nodes p ! fst (sched ! k)))"
    using mc by (auto simp: timer_callback_shutdown [OF i] timer_callback_count [OF i] add.assoc)
  also have "\<dots> \<longleftrightarrow> shutdown_called p \<or>
      (\<exists>k < Suc (length sched). current_msg_count p + of_nat (Suc k) = max_count (nodes p ! fst (((i, now) # sched) ! k)))"
    by (auto simp: less_Suc_eq_0_disj)
  finally show ?case by simp
qed

lemma run_callbacks_published:
  "\<forall>e \<in> set sched. fst e < length (nodes p) \<Longrightarrow>
   published (run_callbacks sched p) =
     published p @ map (\<lambda>(i, now). (i, build_message (nodes p ! i) now)) sched"
proof (induction sched p rule: run_callbacks.induct)
  case (1 p)
  then show ?case by simp
next
  case (2 i now sched p)
  let ?q = "timer_callback i now p"
  have i: "i < length (nodes p)"
    using "2.prems" by simp
  have valid: "\<forall>e \<in> set sched. fst e < length (nodes ?q)"
    using "2.prems" by (simp add: timer_callback_nodes)
  have same: "map (\<lambda>(j, t). (j, build_message (nodes ?q ! j) t)) sched
      = map (\<lambda>(j, t). (j, build_message (nodes p ! j) t)) sched"
  proof (rule map_cong [OF refl])
    fix e
    assume e: "e \<in> set sched"
    then have "fst e < length (nodes p)"
      using "2.prems" by simp
    then have "build_message (nodes ?q ! fst e) (snd e) = build_message (nodes p ! fst e) (snd e)"
      by (intro build_message_cong) (simp_all add: timer_callback_node_members)
    then show "(case e of (j, t) \<Rightarrow> (j, build_message (nodes ?q ! j) t))
        = (case e of (j, t) \<Rightarrow> (j, build_message (nodes p ! j) t))"
      by (simp add: case_prod_beta)
  qed
  show ?case
    using "2.IH" [OF valid] same by (simp add: timer_callback_published [OF i])
qed

lemma published_by_run_callbacks:
  assumes "\<forall>e \<in> set sched. fst e < length ns"
  shows "published_by i (run_callbacks sched (start_process ns)) =
     map (\<lambda>e. build_message (ns ! i) (snd e)) (filter (\<lambda>e. fst e = i) sched)"
proof -
  have "published (run_callbacks sched (start_process ns)) =
      map (\<lambda>(j, t). (j, build_message (ns ! j) t)) sched"
    using run_callbacks_published [of sched "start_process ns"] assms
    by (simp add: start_process_def)
  then show ?thesis
    by (simp add: published_by_def filter_map comp_def case_prod_beta)
qed

lemma word_of_nat_Suc_eq:
  fixes m :: uint32_t
  assumes "n < 2 ^ 32" and "m \<noteq> 0"
  shows "(\<exists>k < n. of_nat (Suc k) = m) \<longleftrightarrow> unat m \<le> n"
proof
  assume "\<exists>k < n. of_nat (Suc k) = m"
  then obtain k where k: "k < n" "of_nat (Suc k) = m" by blast
  have "Suc k < 2 ^ LENGTH(32)"
    using k(1) assms(1) by simp
  with k(2) have "unat m = Suc k"
    by (rule of_nat_inverse)
  with k(1) show "unat m \<le> n" by simp
next
  assume le: "unat m \<le> n"
  have pos: "0 < unat m"
    using assms(2) by (simp add: unat_gt_0)
  then have "unat m - 1 < n" "of_nat (Suc (unat m - 1)) = m"
    using le by simp_all
  then show "\<exists>k < n. of_nat (Suc k) = m" by blast
qed

text \<open>
  Claim C8. The counter \<^verbatim>\<open>current_msg_count\<close> of \<^verbatim>\<open>timer_callback\<close> is one
  static object shared by every node of the process. After any schedule of timer
  callbacks, shorter than \<open>2^32\<close> so that the counter has not wrapped, it holds the
  number of callbacks of all nodes together. \<^verbatim>\<open>rclcpp::shutdown()\<close> has been called
  exactly when some callback, numbered across all nodes, has reached \<^verbatim>\<open>max_count\<close> of
  the node it ran on; when the nodes share one \<^verbatim>\<open>max_count\<close> that is not zero, that
  is when the total number of callbacks has reached it. Each node has published only
  as many messages as its own timer fired.
\<close>

theorem current_msg_count_shared:
  assumes valid: "\<forall>e \<in> set sched. fst e < length ns"
    and len: "length sched < 2 ^ 32"
  shows "current_msg_count (run_callbacks sched (start_process ns)) = of_nat (length sched)
       \<and> (shutdown_called (run_callbacks sched (start_process ns)) \<longleftrightarrow>
            (\<exists>k < length sched. unat (max_count (ns ! fst (sched ! k))) = Suc k))
       \<and> ((\<forall>n \<in> set ns. max_count n = m) \<and> m \<noteq> 0 \<longrightarrow>
            (shutdown_called (run_callbacks sched (start_process ns)) \<longleftrightarrow> unat m \<le> length sched))
       \<and> (\<forall>i. length (published_by i (run_callbacks sched (start_process ns)))
              = length (filter (\<lambda>e. fst e = i) sched))"
proof (intro conjI allI impI)
  have v: "\<forall>e \<in> set sched. fst e < length (nodes (start_process ns))"
    using valid by (simp add: start_process_def)
  show "current_msg_count (run_callbacks sched (start_process ns)) = of_nat (length sched)"
    using run_callbacks_count [OF v] by (simp add: start_process_def)
  have called: "shutdown_called (run_callbacks sched (start_process ns)) \<longleftrightarrow>
      (\<exists>k < length sched. of_nat (Suc k) = max_count (ns ! fst (sched ! k)))"
    using run_callbacks_shutdown [OF v] by (simp add: start_process_def)
  have number: "of_nat (Suc k) = c \<longleftrightarrow> unat c = Suc k" if "k < length sched" for k and c :: uint32_t
  proof
    assume "of_nat (Suc k) = c"
    moreover have "Suc k < 2 ^ LENGTH(32)"
      using that len by simp
    ultimately show "unat c = Suc k"
      by (rule of_nat_inverse)
  next
    assume "unat c = Suc k"
    then have "of_nat (Suc k) = (of_nat (unat c) :: uint32_t)"
      by simp
    then show "of_nat (Suc k) = c"
      by simp
  qed
  show "shutdown_called (run_callbacks sched (start_process ns)) \<longleftrightarrow>
      (\<exists>k < length sched. unat (max_count (ns ! fst (sched ! k))) = Suc k)"
    using called number by auto
  show "shutdown_called (run_callbacks sched (start_process ns)) \<longleftrightarrow> unat m \<le> length sched"
    if same: "(\<forall>n \<in> set ns. max_count n = m) \<and> m \<noteq> 0"
  proof -
    have mc: "\<And>k. k < length sched \<Longrightarrow> max_count (ns ! fst (sched ! k)) = m"
      using valid same by (metis nth_mem)
    have "shutdown_called (run_callbacks sched (start_process ns)) \<longleftrightarrow>
        (\<exists>k < length sched. of_nat (Suc k) = m)"
      using called mc by auto
    also have "\<dots> \<longleftrightarrow> unat m \<le> length sched"
      using len same by (intro word_of_nat_Suc_eq) simp_all
    finally show ?thesis .
  qed
  show "length (published_by i (run_callbacks sched (start_process ns)))
      = length (filter (\<lambda>e. fst e = i) sched)" for i
    by (simp add: published_by_run_callbacks [OF valid])
qed

lemma max_count_new_ImagePublisher:
  "max_count (fst (new_ImagePublisher std_rand name p_dt p_max_count p_dimensions p_delay path g))
     = p_max_count"
  by (simp add: new_ImagePublisher_def split: prod.split)

lemma dimensions_new_ImagePublisher:
  "dimensions (fst (new_ImagePublisher std_rand name p_dt p_max_count p_dimensions p_delay path g))
     = p_dimensions"
  by (simp add: new_ImagePublisher_def split: prod.split)

lemma random_image_data_new_ImagePublisher:
  "random_image_data (fst (new_ImagePublisher std_rand name p_dt p_max_count p_dimensions p_delay path g))
     = fst (randomImageData std_rand (unat (p_dimensions * 4 * p_dimensions)) g)"
  by (simp add: new_ImagePublisher_def split: prod.split)

theorem current_msg_count_shared_witness:
  "list_all (\<lambda>e. fst e < length two_publishers) alternating
   \<and> list_all (\<lambda>n. max_count n = 4) two_publishers
   \<and> shutdown_called (run_callbacks alternating (start_process two_publishers))
   \<and> \<not> shutdown_called (run_callbacks (butlast alternating) (start_process two_publishers))
   \<and> length (published_by 0 (run_callbacks alternating (start_process two_publishers))) = 2
   \<and> length (published_by 1 (run_callbacks alternating (start_process two_publishers))) = 2"
proof -
  have valid: "\<forall>e \<in> set alternating. fst e < length two_publishers"
    by (simp add: alternating_def two_publishers_def)
  have valid': "\<forall>e \<in> set (butlast alternating). fst e < length two_publishers"
    by (simp add: alternating_def two_publishers_def)
  have same: "\<forall>n \<in> set two_publishers. max_count n = 4"
    by (simp add: two_publishers_def max_count_new_ImagePublisher)
  have m: "(4 :: uint32_t) \<noteq> 0"
    by simp
  have len: "length alternating < 2 ^ 32" "length (butlast alternating) < 2 ^ 32"
    by (simp_all add: alternating_def)
  note full = current_msg_count_shared [OF valid len(1), of 4]
  note part = current_msg_count_shared [OF valid' len(2), of 4]
  have "shutdown_called (run_callbacks alternating (start_process two_publishers))
      \<longleftrightarrow> unat (4 :: uint32_t) \<le> length alternating"
    using full same m by blast
  then have "shutdown_called (run_callbacks alternating (start_process two_publishers))"
    by (simp add: alternating_def)
  moreover have "shutdown_called (run_callbacks (butlast alternating) (start_process two_publishers))
      \<longleftrightarrow> unat (4 :: uint32_t) \<le> length (butlast alternating)"
    using part same m by blast
  then have "\<not> shutdown_called (run_callbacks (butlast alternating) (start_process two_publishers))"
    by (simp add: alternating_def)
  moreover have "\<forall>i. length (published_by i (run_callbacks alternating (start_process two_publishers)))
      = length (filter (\<lambda>e. fst e = i) alternating)"
    using full by blast
  then have "length (published_by 0 (run_callbacks alternating (start_process two_publishers))) = 2"
    "length (published_by 1 (run_callbacks alternating (start_process two_publishers))) = 2"
    by (simp_all add: alternating_def)
  ultimately show ?thesis
    using valid same by (simp add: list_all_iff)
qed

lemma randomImageData_0: "randomImageData std_rand 0 g = ([], g)"
  by (simp add: randomImageData_def randomImageData_loop.simps)

text \<open>
  Claim C10. Every message published is meant to be self-consistent: height, width
  and step follow \<^verbatim>\<open>dimensions\<close>, and the payload has \<open>step * height\<close> bytes, as the
  comment beside the call of \<^verbatim>\<open>randomImageData\<close> says. With \<^verbatim>\<open>dimensions = 32768\<close>
  the product \<^verbatim>\<open>dimensions * 4 * dimensions\<close> is \<open>2^32\<close> and wraps to 0 in
  \<^verbatim>\<open>uint32_t\<close>: the node publishes an image of 32768 rows of 131072 bytes with an
  empty payload, whatever the other parameters and the generator are.
\<close>

theorem image_data_wraps_at_32768:
  "let node = fst (new_ImagePublisher std_rand name p_dt p_max_count 32768 p_delay path g);
       p = timer_callback 0 now (start_process [node]);
       message = snd (hd (published p))
   in length (published p) = 1
      \<and> height message = 32768 \<and> width message = 32768 \<and> step message = 131072
      \<and> data message = []
      \<and> length (data message) = 0
      \<and> unat (step message) * unat (height message) = 4294967296
      \<and> length (data message) \<noteq> unat (step message) * unat (height message)"
  by (simp add: Let_def timer_callback_published start_process_def build_message_def
      dimensions_new_ImagePublisher random_image_data_new_ImagePublisher randomImageData_0)

text \<open>
  Below that size nothing wraps, and the message is as consistent as it is meant to
  be; the payload of every message of a node is the buffer drawn by its constructor.
\<close>

lemma build_message_consistent:
  fixes std_rand :: "'g \<Rightarrow> int \<times> 'g" and g :: 'g
    and name path :: string and p_dt p_max_count p_dimensions p_delay :: uint32_t
    and now :: int
  assumes "unat p_dimensions < 32768"
  defines "node \<equiv> fst (new_ImagePublisher std_rand name p_dt p_max_count p_dimensions p_delay path g)"
  defines "message \<equiv> build_message node now"
  shows "height message = p_dimensions" and "width message = p_dimensions"
    and "unat (step message) = unat p_dimensions * 4"
    and "length (data message) = unat (step message) * unat (height message)"
    and "encoding message = ''rgba8''" and "frame_id (header message) = ''image_frame''"
    and "data message = random_image_data node"
proof -
  have four: "unat (p_dimensions * 4) = unat p_dimensions * 4"
  proof -
    have "unat p_dimensions * unat (4 :: uint32_t) < 2 ^ LENGTH(32)"
      using assms(1) by simp
    then show ?thesis
      by (simp add: unat_mult_lem [THEN iffD1])
  qed
  have "unat p_dimensions * unat p_dimensions \<le> 32767 * 32767"
    using assms(1) by (intro mult_mono) simp_all
  then have "unat (p_dimensions * 4) * unat p_dimensions < 2 ^ LENGTH(32)"
    by (simp add: four)
  then have sq: "unat (p_dimensions * 4 * p_dimensions) = unat p_dimensions * 4 * unat p_dimensions"
    by (simp add: unat_mult_lem [THEN iffD1] four)
  show "height message = p_dimensions" "width message = p_dimensions"
    "encoding message = ''rgba8''" "frame_id (header message) = ''image_frame''"
    "data message = random_image_data node"
    by (simp_all add: message_def node_def build_message_def dimensions_new_ImagePublisher)
  show "unat (step message) = unat p_dimensions * 4"
    by (simp add: message_def node_def build_message_def dimensions_new_ImagePublisher four)
  show "length (data message) = unat (step message) * unat (height message)"
    by (simp add: message_def node_def build_message_def dimensions_new_ImagePublisher
        random_image_data_new_ImagePublisher randomImageData_def randomImageData_loop_length
        four sq)
qed

lemma published_payload_constant:
  assumes "\<forall>e \<in> set sched. fst e < length ns"
    and "message \<in> set (published_by i (run_callbacks sched (start_process ns)))"
  shows "data message = random_image_data (ns ! i)"
  using assms(2) by (auto simp: published_by_run_callbacks [OF assms(1)] build_message_def)

section \<open>Properties of the record and replay core\<close>

subsection \<open>What the Reader gets back from the Writer\<close>

lemma decompress_messages_append:
  "decompress_messages plugin (xs @ ys) =
     (fst (decompress_messages plugin xs) @ fst (decompress_messages plugin ys),
      snd (decompress_messages plugin xs) @ snd (decompress_messages plugin ys))"
  by (induction xs) (auto split: prod.splits option.splits)

lemma read_splits_append:
  "read_splits plugin mode f (xs @ ys) =
     (fst (read_splits plugin mode f xs) @ fst (read_splits plugin mode f ys),
      snd (read_splits plugin mode f xs) @ snd (read_splits plugin mode f ys))"
  by (induction xs) (auto split: prod.splits)

lemma read_splits_concat:
  "read_splits plugin mode None ss =
     (concat (map (\<lambda>s. fst (read_split plugin mode s)) ss),
      concat (map (\<lambda>s. snd (read_split plugin mode s)) ss))"
  by (induction ss) (auto simp: allowed_def split: prod.splits)

lemma seal_split_read:
  assumes "lossless plugin"
    and "seal_split plugin w = Inr s"
  shows "read_split plugin (compression_mode (compression_options w)) s
       = decode_stored plugin (compression_mode (compression_options w)) (current_messages w)"
    and "time_bounds s = current_bounds w"
    and "split_size s = current_size w"
proof -
  show "time_bounds s = current_bounds w" "split_size s = current_size w"
    using assms(2) by (auto simp: seal_split_def split: option.splits if_splits)
  show "read_split plugin (compression_mode (compression_options w)) s
       = decode_stored plugin (compression_mode (compression_options w)) (current_messages w)"
  proof (cases "compression_mode (compression_options w)")
    case NoCompression
    with assms(2) show ?thesis
      by (auto simp: seal_split_def read_split_def decode_stored_def)
  next
    case FileCompression
    with assms(2) obtain c where c: "compress_file plugin (current_messages w) = Some c"
      and s: "split_file s = CompressedFile c"
      by (auto simp: seal_split_def split: option.splits)
    from assms(1) c have "decompress_file plugin c = Some (current_messages w)"
      by (simp add: lossless_def)
    with FileCompression s show ?thesis
      by (simp add: read_split_def decode_stored_def)
  next
    case MessageCompression
    with assms(2) show ?thesis
      by (auto simp: seal_split_def read_split_def decode_stored_def)
  qed
qed

lemma writer_inv_open: "writer_inv plugin (open_writer sopts copts) []"
  by (simp add: writer_inv_def open_writer_def decode_stored_def)

lemma extend_bounds_ordered:
  assumes "\<forall>lo hi. b = Some (lo, hi) \<longrightarrow> lo \<le> hi"
  shows "\<exists>lo hi. extend_bounds b t = Some (lo, hi) \<and> lo \<le> hi"
  using assms by (cases b) (auto simp: extend_bounds_def)

lemma decode_stored_snoc:
  assumes "lossless plugin"
    and "stored_form plugin mode m = Some k"
  shows "decode_stored plugin mode (ks @ [k])
       = (fst (decode_stored plugin mode ks) @ [m], snd (decode_stored plugin mode ks))"
proof (cases "mode = MessageCompression")
  case True
  with assms have "decompress_message plugin k = Some m"
    by (simp add: lossless_def stored_form_def)
  with True show ?thesis
    by (simp add: decode_stored_def decompress_messages_append)
next
  case False
  with assms show ?thesis
    by (simp add: decode_stored_def stored_form_def)
qed

lemma decode_stored_Nil_iff:
  assumes "snd (decode_stored plugin mode ks) = []"
  shows "fst (decode_stored plugin mode ks) = [] \<longleftrightarrow> ks = []"
proof (cases "mode = MessageCompression")
  case True
  have "snd (decompress_messages plugin xs) = [] \<Longrightarrow>
      length (fst (decompress_messages plugin xs)) = length xs" for xs
    by (induction xs) (auto split: prod.splits option.splits)
  with assms True show ?thesis
    by (fastforce simp: decode_stored_def)
next
  case False
  then show ?thesis by (simp add: decode_stored_def)
qed

lemma rollover_inv:
  assumes ll: "lossless plugin"
    and inv: "writer_inv plugin w msgs"
    and r: "rollover plugin w = Inr w'"
  shows "writer_inv plugin w' msgs"
    and "storage_options w' = storage_options w"
    and "compression_options w' = compression_options w"
proof -
  let ?mode = "compression_mode (compression_options w)"
  from r obtain s where s: "seal_split plugin w = Inr s"
    and w': "w' = w\<lparr>sealed_splits := sealed_splits w @ [s],
                    sequence_suffix := Suc (sequence_suffix w),
                    current_messages := [], current_bounds := None, current_size := 0\<rparr>"
    by (auto simp: rollover_def split: sum.splits)
  note rd = seal_split_read [OF ll s]
  show "storage_options w' = storage_options w" "compression_options w' = compression_options w"
    by (simp_all add: w')
  have ok: "split_ok plugin ?mode s"
    using inv rd by (auto simp: split_ok_def writer_inv_def decode_stored_def)
  show "writer_inv plugin w' msgs"
    using inv ok rd(1)
    by (auto simp: writer_inv_def w' read_splits_concat decode_stored_def)
qed

lemma write_message_inv:
  assumes ll: "lossless plugin"
    and inv: "writer_inv plugin w msgs"
    and wr: "write_message plugin w m = Inr w'"
  shows "writer_inv plugin w' (msgs @ [m])"
    and "storage_options w' = storage_options w"
    and "compression_options w' = compression_options w"
proof -
  let ?mode = "compression_mode (compression_options w)"
  from wr obtain k where k: "stored_form plugin ?mode m = Some k"
    by (auto simp: write_message_def split: if_splits option.splits)
  define w1 where "w1 = w\<lparr>current_messages := current_messages w @ [k],
                          current_bounds := extend_bounds (current_bounds w) (receive_timestamp m),
                          current_size := current_size w + message_size k\<rparr>"
  have step: "(if should_rollover w1 then rollover plugin w1 else Inr w1) = Inr w'"
    using wr k inv by (auto simp: write_message_def w1_def Let_def writer_inv_def split: if_splits)
  have b: "\<exists>lo hi. extend_bounds (current_bounds w) (receive_timestamp m) = Some (lo, hi) \<and> lo \<le> hi"
    using inv by (intro extend_bounds_ordered) (simp add: writer_inv_def)
  have inv1: "writer_inv plugin w1 (msgs @ [m])"
    using inv b decode_stored_snoc [OF ll k, of "current_messages w"]
    by (auto simp: writer_inv_def w1_def)
  have opts1: "storage_options w1 = storage_options w" "compression_options w1 = compression_options w"
    by (simp_all add: w1_def)
  show "writer_inv plugin w' (msgs @ [m])"
    using step inv1 rollover_inv(1) [OF ll inv1] by (auto split: if_splits)
  show "storage_options w' = storage_options w"
    using step opts1 rollover_inv(2) [OF ll inv1] by (auto split: if_splits)
  show "compression_options w' = compression_options w"
    using step opts1 rollover_inv(3) [OF ll inv1] by (auto split: if_splits)
qed

lemma write_all_inv:
  assumes "lossless plugin"
    and "writer_inv plugin w done"
    and "write_all plugin w msgs = Inr w'"
  shows "writer_inv plugin w' (done @ msgs)
       \<and> storage_options w' = storage_options w
       \<and> compression_options w' = compression_options w"
  using assms(2,3)
proof (induction msgs arbitrary: w "done")
  case Nil
  then show ?case by simp
next
  case (Cons m msgs)
  from Cons.prems(2) obtain w1 where w1: "write_message plugin w m = Inr w1"
    and rest: "write_all plugin w1 msgs = Inr w'"
    by (auto split: sum.splits)
  note step = write_message_inv [OF assms(1) Cons.prems(1) w1]
  from Cons.IH [OF step(1) rest] step(2,3) show ?case
    by simp
qed

lemma non_overlapping_sorted:
  assumes "non_overlapping ss"
    and "\<forall>s \<in> set ss. \<forall>lo hi. time_bounds s = Some (lo, hi) \<longrightarrow> lo \<le> hi"
  shows "sorted (map start_time (filter (\<lambda>s. start_time s \<noteq> None) ss))"
  using assms
proof (induction ss)
  case Nil
  then show ?case by simp
next
  case (Cons s ss)
  have rest: "sorted (map start_time (filter (\<lambda>s. start_time s \<noteq> None) ss))"
    using Cons by simp
  show ?case
  proof (cases "time_bounds s")
    case None
    then have "start_time s = None"
      by (simp add: start_time_def)
    with rest show ?thesis by simp
  next
    case (Some b)
    obtain lo hi where b: "b = (lo, hi)" by (cases b)
    have le: "lo \<le> hi"
      using Cons.prems(2) Some b by simp
    have "start_time s \<le> start_time s'" if "s' \<in> set ss" "start_time s' \<noteq> None" for s'
    proof -
      from that(2) obtain lo' hi' where s': "time_bounds s' = Some (lo', hi')"
        by (auto simp: start_time_def)
      from Cons.prems(1) that(1) Some b s' have "hi \<le> lo'"
        by (auto simp: list_all_iff)
      with le Some b s' show ?thesis
        by (simp add: start_time_def)
    qed
    moreover have "start_time s \<noteq> None"
      using Some by (simp add: start_time_def)
    ultimately show ?thesis
      using rest by simp
  qed
qed

lemma concat_map_filter_nonempty:
  assumes "\<forall>x \<in> set xs. \<not> P x \<longrightarrow> g x = []"
  shows "concat (map g (filter P xs)) = concat (map g xs)"
  using assms by (induction xs) auto

lemma concat_map_sort_key:
  fixes k :: "'a \<Rightarrow> int option"
  assumes empty: "\<forall>x \<in> set xs. k x = None \<longrightarrow> g x = []"
    and sorted: "sorted (map k (filter (\<lambda>x. k x \<noteq> None) xs))"
  shows "concat (map g (sort_key k xs)) = concat (map g xs)"
proof -
  let ?P = "\<lambda>x. k x \<noteq> None"
  have "concat (map g (sort_key k xs)) = concat (map g (filter ?P (sort_key k xs)))"
    using empty by (intro concat_map_filter_nonempty [symmetric]) simp
  also have "filter ?P (sort_key k xs) = sort_key k (filter ?P xs)"
    by (rule filter_sort)
  also have "\<dots> = filter ?P xs"
    using sorted by (rule sort_key_id_if_sorted)
  also have "concat (map g (filter ?P xs)) = concat (map g xs)"
    using empty by (intro concat_map_filter_nonempty) simp
  finally show ?thesis .
qed

lemma concat_map_all_Nil: "\<forall>x \<in> set xs. g x = [] \<Longrightarrow> concat (map g xs) = []"
  by (induction xs) auto

lemma record_session_splits:
  assumes ll: "lossless plugin"
    and rec: "record_session plugin sopts copts msgs = Inr bag"
  shows "read_splits plugin (compression_mode copts) None (bag_splits bag) = (msgs, [])"
    and "\<forall>s \<in> set (bag_splits bag). split_ok plugin (compression_mode copts) s"
    and "storage_identifier bag = storage_id sopts"
    and "bag_compression_mode bag = compression_mode copts"
proof -
  from rec obtain w w' where w: "write_all plugin (open_writer sopts copts) msgs = Inr w"
    and c: "close_writer plugin w = Inr w'" and bag: "bag = bag_of w'"
    by (auto simp: record_session_def split: sum.splits)
  from write_all_inv [OF ll writer_inv_open w]
  have inv: "writer_inv plugin w msgs" and so: "storage_options w = sopts"
    and co: "compression_options w = copts"
    by (simp_all add: open_writer_def)
  from c obtain s where s: "seal_split plugin w = Inr s"
    and w': "w' = w\<lparr>writer_state := Closed, sealed_splits := sealed_splits w @ [s],
                    current_messages := [], current_bounds := None, current_size := 0\<rparr>"
    by (auto simp: close_writer_def split: if_splits sum.splits)
  note rd = seal_split_read [OF ll s]
  have ok: "split_ok plugin (compression_mode copts) s"
    using inv rd co by (auto simp: split_ok_def writer_inv_def decode_stored_def)
  show "\<forall>s \<in> set (bag_splits bag). split_ok plugin (compression_mode copts) s"
    using inv ok co by (auto simp: bag bag_of_def w' writer_inv_def)
  show "read_splits plugin (compression_mode copts) None (bag_splits bag) = (msgs, [])"
    using inv ok rd(1) co
    by (auto simp: bag bag_of_def w' writer_inv_def read_splits_concat split_ok_def
        intro!: concat_map_all_Nil)
  show "storage_identifier bag = storage_id sopts" "bag_compression_mode bag = compression_mode copts"
    using so co by (simp_all add: bag bag_of_def w')
qed

subsection \<open>Arrival in timestamp order gives non-overlapping Splits\<close>

lemma non_overlapping_snoc:
  "non_overlapping (ss @ [s]) \<longleftrightarrow>
     non_overlapping ss
     \<and> (\<forall>x \<in> set ss. \<forall>lo hi lo' hi'.
           time_bounds x = Some (lo, hi) \<longrightarrow> time_bounds s = Some (lo', hi') \<longrightarrow> hi \<le> lo')"
  by (induction ss) (auto simp: list_all_iff split: option.splits)

lemma seal_split_bounds: "seal_split plugin w = Inr s \<Longrightarrow> time_bounds s = current_bounds w"
  by (auto simp: seal_split_def split: option.splits)

lemma rollover_order_inv:
  assumes "order_inv w t" and "rollover plugin w = Inr w'"
  shows "order_inv w' t"
proof -
  from assms(2) obtain s where s: "seal_split plugin w = Inr s"
    and w': "w' = w\<lparr>sealed_splits := sealed_splits w @ [s],
                    sequence_suffix := Suc (sequence_suffix w),
                    current_messages := [], current_bounds := None, current_size := 0\<rparr>"
    by (auto simp: rollover_def split: sum.splits)
  from assms(1) seal_split_bounds [OF s] show ?thesis
    by (auto simp: order_inv_def w' non_overlapping_snoc)
qed

lemma write_message_order_inv:
  assumes inv: "order_inv w t"
    and le: "t \<le> receive_timestamp m"
    and wr: "write_message plugin w m = Inr w'"
  shows "order_inv w' (receive_timestamp m)"
proof -
  from wr obtain k where k: "stored_form plugin (compression_mode (compression_options w)) m = Some k"
    by (auto simp: write_message_def split: if_splits option.splits)
  define w1 where "w1 = w\<lparr>current_messages := current_messages w @ [k],
                          current_bounds := extend_bounds (current_bounds w) (receive_timestamp m),
                          current_size := current_size w + message_size k\<rparr>"
  have step: "(if should_rollover w1 then rollover plugin w1 else Inr w1) = Inr w'"
    using wr k by (auto simp: write_message_def w1_def Let_def split: if_splits)
  have inv1: "order_inv w1 (receive_timestamp m)"
  proof (cases "current_bounds w")
    case None
    with inv le show ?thesis
      by (fastforce simp: order_inv_def w1_def extend_bounds_def)
  next
    case (Some b)
    obtain lo hi where b: "b = (lo, hi)" by (cases b)
    with inv le Some show ?thesis
      by (fastforce simp: order_inv_def w1_def extend_bounds_def)
  qed
  with step rollover_order_inv [OF inv1] show ?thesis
    by (auto split: if_splits)
qed

lemma write_all_order_inv:
  assumes "order_inv w t"
    and "sorted (map receive_timestamp msgs)"
    and "\<forall>m \<in> set msgs. t \<le> receive_timestamp m"
    and "write_all plugin w msgs = Inr w'"
  shows "\<exists>t'. order_inv w' t'"
  using assms
proof (induction msgs arbitrary: w t)
  case Nil
  then show ?case by auto
next
  case (Cons m msgs)
  from Cons.prems(4) obtain w1 where w1: "write_message plugin w m = Inr w1"
    and rest: "write_all plugin w1 msgs = Inr w'"
    by (auto split: sum.splits)
  have "order_inv w1 (receive_timestamp m)"
    using Cons.prems(1,3) w1 by (intro write_message_order_inv [where t = t]) simp_all
  moreover have "sorted (map receive_timestamp msgs)"
    "\<forall>m' \<in> set msgs. receive_timestamp m \<le> receive_timestamp m'"
    using Cons.prems(2) by simp_all
  ultimately show ?case
    using rest by (rule Cons.IH)
qed

lemma record_session_non_overlapping:
  assumes rec: "record_session plugin sopts copts msgs = Inr bag"
    and sorted: "sorted (map receive_timestamp msgs)"
  shows "non_overlapping (bag_splits bag)"
proof -
  from rec obtain w w' where w: "write_all plugin (open_writer sopts copts) msgs = Inr w"
    and c: "close_writer plugin w = Inr w'" and bag: "bag = bag_of w'"
    by (auto simp: record_session_def split: sum.splits)
  define t where "t = (case msgs of [] \<Rightarrow> 0 | m # _ \<Rightarrow> receive_timestamp m)"
  have start: "order_inv (open_writer sopts copts :: 'a SequentialWriter) t"
    by (simp add: order_inv_def open_writer_def)
  have low: "\<forall>m \<in> set msgs. t \<le> receive_timestamp m"
    using sorted by (cases msgs) (auto simp: t_def)
  from write_all_order_inv [OF start sorted low w] obtain t' where inv: "order_inv w t'"
    by blast
  from c obtain s where s: "seal_split plugin w = Inr s"
    and splits: "bag_splits bag = sealed_splits w @ [s]"
    by (auto simp: close_writer_def bag bag_of_def split: if_splits sum.splits)
  from inv seal_split_bounds [OF s] show ?thesis
    by (auto simp: splits order_inv_def non_overlapping_snoc)
qed

subsection \<open>The scenario\<close>

lemma lossless_mirror_codec: "lossless mirror_codec"
  by (simp add: lossless_def mirror_codec_def)

lemmas writer_defs =
  record_session_def write_message_def stored_form_def should_rollover_def rollover_def
  seal_split_def close_writer_def bag_of_def open_writer_def extend_bounds_def
  split_duration_def message_size_def

lemma demo_recording:
  "record_session mirror_codec size_bound_storage message_compression demo_messages = Inr demo_bag"
  by (simp add: writer_defs mirror_codec_def demo_messages_def demo_message_def
      size_bound_storage_def message_compression_def demo_bag_def)

lemma demo_bag_non_overlapping: "non_overlapping (bag_splits demo_bag)"
  by (simp add: demo_bag_def)

text \<open>
  Without the invariant the Reader does not give back the order of arrival: it orders
  the Splits by their start time, and a Split without messages comes first.
\<close>

lemma replay_late_messages:
  "replay mirror_codec [''sqlite3'']
     (record_session mirror_codec size_bound_storage no_compression late_messages)
   = Inr (rev late_messages, [])"
  by (simp add: replay_def writer_defs open_reader_def read_messages_def read_split_def
      start_time_def allowed_def late_messages_def demo_message_def size_bound_storage_def
      no_compression_def mirror_codec_def)

subsection \<open>Round trip\<close>

text \<open>
  Claim C1. Round-trip identity: when a sequence of messages is recorded in the order
  in which the Writer dequeues it, a Reader opened over the resulting bag returns
  exactly these messages in the same order and reports no error, globally and hence
  for every topic, given the invariant that the Splits of the bag are non-overlapping
  and in increasing temporal order. The plugin keeps its contract of section 4.2, and
  the storage identifier of the bag is one of the available backends.
\<close>

theorem round_trip_identity:
  assumes ll: "lossless plugin"
    and rec: "record_session plugin sopts copts msgs = Inr bag"
    and inv: "non_overlapping (bag_splits bag)"
    and backend: "storage_id sopts \<in> set backends"
  shows "\<exists>r. open_reader backends bag = Inr r
           \<and> read_messages plugin r = (msgs, [])
           \<and> (\<forall>t. filter (\<lambda>m. topic_name m = t) (fst (read_messages plugin r))
                  = filter (\<lambda>m. topic_name m = t) msgs)"
proof -
  let ?mode = "compression_mode copts"
  note splits = record_session_splits [OF ll rec]
  define r where "r = \<lparr>reader_mode = bag_compression_mode bag,
      reader_splits = sort_key start_time (bag_splits bag), topic_filter = None\<rparr>"
  have opened: "open_reader backends bag = Inr r"
    using backend splits(3) by (simp add: open_reader_def r_def)
  have ord: "\<forall>s \<in> set (bag_splits bag). \<forall>lo hi. time_bounds s = Some (lo, hi) \<longrightarrow> lo \<le> hi"
    using splits(2) by (simp add: split_ok_def)
  have sorted: "sorted (map start_time (filter (\<lambda>s. start_time s \<noteq> None) (bag_splits bag)))"
    using inv ord by (rule non_overlapping_sorted)
  have empty: "\<forall>s \<in> set (bag_splits bag). start_time s = None \<longrightarrow> fst (read_split plugin ?mode s) = []"
    using splits(2) by (simp add: split_ok_def start_time_def)
  have msgs: "concat (map (\<lambda>s. fst (read_split plugin ?mode s)) (sort_key start_time (bag_splits bag)))
      = msgs"
    using concat_map_sort_key [OF empty sorted] splits(1) by (simp add: read_splits_concat)
  have errs: "concat (map (\<lambda>s. snd (read_split plugin ?mode s)) (sort_key start_time (bag_splits bag)))
      = []"
    using splits(2) by (intro concat_map_all_Nil) (simp add: split_ok_def)
  have "read_messages plugin r = (msgs, [])"
    using msgs errs splits(4) by (simp add: read_messages_def r_def read_splits_concat)
  with opened show ?thesis
    by simp
qed

theorem round_trip_identity_witness:
  "lossless mirror_codec
   \<and> record_session mirror_codec size_bound_storage message_compression demo_messages = Inr demo_bag
   \<and> non_overlapping (bag_splits demo_bag)
   \<and> length (bag_splits demo_bag) = 3
   \<and> (\<exists>r. open_reader [''sqlite3''] demo_bag = Inr r
          \<and> read_messages mirror_codec r = (demo_messages, []))"
proof -
  have backend: "storage_id size_bound_storage \<in> set [''sqlite3'']"
    by (simp add: size_bound_storage_def)
  from round_trip_identity [OF lossless_mirror_codec demo_recording demo_bag_non_overlapping backend]
  have "\<exists>r. open_reader [''sqlite3''] demo_bag = Inr r
          \<and> read_messages mirror_codec r = (demo_messages, [])"
    by blast
  moreover have "length (bag_splits demo_bag) = 3"
    by (simp add: demo_bag_def)
  ultimately show ?thesis
    using lossless_mirror_codec demo_recording demo_bag_non_overlapping by simp
qed

subsection \<open>Rollover\<close>












end
